theory Spec2Isabelle
  imports Main "HOL-Library.Word" "HOL-Library.AList"
begin

unbundle bit_operations_syntax

section \<open>The SPMC ring (spmc.hpp)\<close>

text \<open>
  \<^verbatim>\<open>template <class T, uint32_t CNT> class SPMCQueue\<close>: the payload type \<open>T\<close> is the type
  parameter \<open>'a\<close>, the capacity \<open>CNT\<close> is passed to every operation as a 32-bit word.
  All sequence arithmetic is on \<open>uint32_t\<close>, so it wraps modulo \<open>2 ^ 32\<close>.
\<close>

type_synonym uint32_t = "32 word"

text \<open>\<^verbatim>\<open>static_assert(CNT && !(CNT & (CNT - 1)), "CNT must be a power of 2")\<close>\<close>

definition CNT_ok :: "uint32_t \<Rightarrow> bool" where
  "CNT_ok CNT = (CNT \<noteq> 0 \<and> \<not> (CNT AND (CNT - 1) \<noteq> 0))"

text \<open>\<^verbatim>\<open>struct alignas(64) Block { uint32_t idx = 0; T data; };\<close>\<close>

record 'a Block =
  idx :: uint32_t
  data :: 'a

text \<open>\<^verbatim>\<open>Block blks[CNT]; alignas(128) uint32_t write_idx = 0;\<close>\<close>

record 'a SPMCQueue =
  blks :: "'a Block list"
  write_idx :: uint32_t

text \<open>
  \<^verbatim>\<open>struct Reader { SPMCQueue<T, CNT> *q = nullptr; uint32_t next_idx; }\<close>.
  The ring that \<open>q\<close> points to is passed next to the handle.
\<close>

record Reader =
  next_idx :: uint32_t

text \<open>
  A freshly constructed ring: every block has \<open>idx = 0\<close> and a default-constructed
  payload \<open>d0\<close>, and \<open>write_idx = 0\<close>.
\<close>

definition SPMCQueue_init :: "uint32_t \<Rightarrow> 'a \<Rightarrow> 'a SPMCQueue" where
  "SPMCQueue_init CNT d0 =
     \<lparr>blks = replicate (unat CNT) \<lparr>idx = 0, data = d0\<rparr>, write_idx = 0\<rparr>"

text \<open>
  \<^verbatim>\<open>T *read()\<close>. The state is the ring together with the reader handle; the result is
  \<open>None\<close> for \<open>nullptr\<close> and \<open>Some slot\<close> for the pointer \<^verbatim>\<open>&blk.data\<close> into block
  \<open>slot\<close> of the ring. \<^verbatim>\<open>int(new_idx - next_idx)\<close> is the two's complement reading
  \<open>sint\<close> of the wrapped difference.
\<close>

definition read :: "uint32_t \<Rightarrow> 'a SPMCQueue \<times> Reader \<Rightarrow> nat option \<times> 'a SPMCQueue \<times> Reader" where
  "read CNT s =
     (case s of (q, r) \<Rightarrow>
        let slot = unat (next_idx r mod CNT);
            new_idx = idx (blks q ! slot)
        in if sint (new_idx - next_idx r) < 0 then (None, q, r)
           else (Some slot, q, r\<lparr>next_idx := new_idx + 1\<rparr>))"

text \<open>Dereferencing the pointer returned by \<open>read\<close> in the ring \<open>q\<close>.\<close>

definition deref :: "'a SPMCQueue \<Rightarrow> nat \<Rightarrow> 'a" where
  "deref q slot = data (blks q ! slot)"

text \<open>\<^verbatim>\<open>Reader getReader()\<close>\<close>

definition getReader :: "'a SPMCQueue \<Rightarrow> Reader" where
  "getReader q = \<lparr>next_idx = write_idx q + 1\<rparr>"

text \<open>
  \<^verbatim>\<open>template <typename Writer> void write(Writer writer)\<close> (src/spmc.hpp). The callable
  receives the payload by reference and may have effects of its own: it is a function
  from the old payload and an environment \<open>'e\<close> to the new payload and environment.
  (\<open>write\<close> is a reserved word of the proof language, hence the qualified name.)
\<close>

type_synonym ('a, 'e) Writer = "'a \<Rightarrow> 'e \<Rightarrow> 'a \<times> 'e"

text \<open>
  The three statements of \<open>write\<close> are three steps on the ring, so that the ring between
  two of them is a state of the model. First \<^verbatim>\<open>++write_idx\<close>; the block \<^verbatim>\<open>blk\<close> is
  then \<^verbatim>\<open>blks[write_idx % CNT]\<close>.
\<close>

definition write_advance :: "'a SPMCQueue \<Rightarrow> 'a SPMCQueue" where
  "write_advance q = q\<lparr>write_idx := write_idx q + 1\<rparr>"

definition write_slot :: "uint32_t \<Rightarrow> 'a SPMCQueue \<Rightarrow> nat" where
  "write_slot CNT q = unat (write_idx q mod CNT)"

text \<open>\<^verbatim>\<open>writer(blk.data)\<close>: the payload of the block is filled, its \<open>idx\<close> is not touched.\<close>

definition write_fill ::
  "uint32_t \<Rightarrow> ('a, 'e) Writer \<Rightarrow> 'a SPMCQueue \<times> 'e \<Rightarrow> 'a SPMCQueue \<times> 'e" where
  "write_fill CNT writer s =
     (case s of (q, env) \<Rightarrow>
        let slot = write_slot CNT q;
            (d, env') = writer (data (blks q ! slot)) env
        in (q\<lparr>blks := (blks q)[slot := (blks q ! slot)\<lparr>data := d\<rparr>]\<rparr>, env'))"

text \<open>\<^verbatim>\<open>((std::atomic<uint32_t> *)&blk.idx)->store(write_idx, std::memory_order_release)\<close>\<close>

definition write_publish :: "uint32_t \<Rightarrow> 'a SPMCQueue \<Rightarrow> 'a SPMCQueue" where
  "write_publish CNT q =
     (let slot = write_slot CNT q
      in q\<lparr>blks := (blks q)[slot := (blks q ! slot)\<lparr>idx := write_idx q\<rparr>]\<rparr>)"

definition SPMCQueue_write :: "uint32_t \<Rightarrow> ('a, 'e) Writer \<Rightarrow> 'a SPMCQueue \<times> 'e \<Rightarrow> 'a SPMCQueue \<times> 'e" where
  "SPMCQueue_write CNT writer s =
     (case write_fill CNT writer (write_advance (fst s), snd s) of
        (q, env') \<Rightarrow> (write_publish CNT q, env'))"

text \<open>
  \<^verbatim>\<open>void write(const T &data)\<close> and \<^verbatim>\<open>void write(T &&data)\<close> (src/src/spmc.hpp): the
  payload is assigned (\<^verbatim>\<open>blk.data = data\<close>) instead of being filled by a callable,
  between the same first and last statement.
\<close>

definition write_assign :: "uint32_t \<Rightarrow> 'a \<Rightarrow> 'a SPMCQueue \<Rightarrow> 'a SPMCQueue" where
  "write_assign CNT d q =
     (let slot = write_slot CNT q
      in q\<lparr>blks := (blks q)[slot := (blks q ! slot)\<lparr>data := d\<rparr>]\<rparr>)"

definition write_value :: "uint32_t \<Rightarrow> 'a \<Rightarrow> 'a SPMCQueue \<Rightarrow> 'a SPMCQueue" where
  "write_value CNT d q = write_publish CNT (write_assign CNT d (write_advance q))"

text \<open>A run of the producer: the writes of a list of callables, in order.\<close>

fun writes :: "uint32_t \<Rightarrow> ('a, 'e) Writer list \<Rightarrow> 'a SPMCQueue \<times> 'e \<Rightarrow> 'a SPMCQueue \<times> 'e" where
  "writes CNT [] s = s"
| "writes CNT (w # ws) s = writes CNT ws (SPMCQueue_write CNT w s)"

text \<open>
  A run of the ring seen from one reader: producer writes interleaved with the reader's
  polls, up to the reader's first successful \<open>read\<close>. The result is the slot returned
  with the ring and the handle at that moment; \<open>None\<close> when no poll of the run succeeds.
\<close>

datatype ('a, 'e) ring_event = Write_ev "('a, 'e) Writer" | Read_ev

fun first_read ::
  "uint32_t \<Rightarrow> ('a, 'e) ring_event list \<Rightarrow> 'a SPMCQueue \<times> 'e \<Rightarrow> Reader
     \<Rightarrow> (nat \<times> 'a SPMCQueue \<times> Reader) option" where
  "first_read CNT [] s r = None"
| "first_read CNT (Write_ev w # evs) s r = first_read CNT evs (SPMCQueue_write CNT w s) r"
| "first_read CNT (Read_ev # evs) s r =
     (case read CNT (fst s, r) of
        (None, q', r') \<Rightarrow> first_read CNT evs (q', snd s) r'
      | (Some slot, q', r') \<Rightarrow> Some (slot, q', r'))"

text \<open>The callables of the writes of a run, in order.\<close>

fun writers_of :: "('a, 'e) ring_event list \<Rightarrow> ('a, 'e) Writer list" where
  "writers_of [] = []"
| "writers_of (Write_ev w # evs) = w # writers_of evs"
| "writers_of (Read_ev # evs) = writers_of evs"

subsection \<open>Sequence numbers of a slot\<close>

text \<open>
  Write number \<open>s\<close> (counted from 1, without wrap-around) goes to block \<open>s mod N\<close>.
  \<open>last_write N k i\<close> is the number of the last of the first \<open>k\<close> writes that went to
  block \<open>i\<close>, and 0 when none did.
\<close>

fun last_write :: "nat \<Rightarrow> nat \<Rightarrow> nat \<Rightarrow> nat" where
  "last_write N 0 i = 0"
| "last_write N (Suc k) i = (if Suc k mod N = i then Suc k else last_write N k i)"

text \<open>
  The specification's wording: after \<open>k\<close> writes the sequence number of slot \<open>i\<close> is
  the largest \<open>s \<le> k\<close> with \<open>s mod N = i\<close>, or 0 if none exists.
\<close>

definition largest_seq :: "nat \<Rightarrow> nat \<Rightarrow> nat \<Rightarrow> nat" where
  "largest_seq N k i =
     (if \<exists>s\<in>{0..k}. s mod N = i then Max {s \<in> {0..k}. s mod N = i} else 0)"

text \<open>
  The specification's wording of the values of slot \<open>i\<close>: 0 at the start, then
  \<open>i + 1\<close>, \<open>i + 1 + N\<close>, \<open>i + 1 + 2 * N\<close>, and so on.
\<close>

definition claimed_seq_value :: "nat \<Rightarrow> nat \<Rightarrow> nat \<Rightarrow> bool" where
  "claimed_seq_value N i v = (v = 0 \<or> (i + 1 \<le> v \<and> (v - (i + 1)) mod N = 0))"

text \<open>
  The callable of \<^verbatim>\<open>write_thread\<close> in main.cpp,
  \<^verbatim>\<open>[&msg](Msg &data) { data = msg; }\<close>: it overwrites the payload with \<open>msg\<close>.
\<close>

definition store_msg :: "'a \<Rightarrow> ('a, 'e) Writer" where
  "store_msg msg d env = (msg, env)"

section \<open>Market data (msgbus/market_data.hpp)\<close>

type_synonym uint64_t = "64 word"

text \<open>
  A \<^verbatim>\<open>double\<close> is carried as its 64 bits: the hub and the binding copy it and do no
  arithmetic on it. A \<^verbatim>\<open>char symbol[32]\<close> is the list of its bytes. The field
  \<^verbatim>\<open>open\<close> of \<^verbatim>\<open>Kline\<close> is called \<open>open_price\<close>, since \<open>open\<close> is a reserved word.
\<close>

type_synonym double = "64 word"

record Kline =
  timestamp :: uint64_t
  open_price :: double
  high :: double
  low :: double
  close :: double
  volume :: double
  symbol :: string

record Trade =
  timestamp :: uint64_t
  price :: double
  quantity :: double
  symbol :: string
  is_buyer_maker :: bool

record BookL1 =
  timestamp :: uint64_t
  bid_price :: double
  bid_quantity :: double
  ask_price :: double
  ask_quantity :: double
  symbol :: string

text \<open>\<^verbatim>\<open>using MarketData = std::variant<Kline, Trade, BookL1>\<close>\<close>

datatype MarketData = Kline_alt Kline | Trade_alt Trade | BookL1_alt BookL1

text \<open>\<^verbatim>\<open>enum class DataType { KLINE = 0, TRADE = 1, BOOK_L1 = 2 }\<close>\<close>

datatype DataType = KLINE | TRADE | BOOK_L1

text \<open>
  \<^verbatim>\<open>static_cast<DataType>(data_ptr->index())\<close>: the alternatives of the variant have the
  indices 0, 1, 2 in the order \<^verbatim>\<open>Kline, Trade, BookL1\<close>, which are the values of the
  enumerators \<^verbatim>\<open>KLINE, TRADE, BOOK_L1\<close>.
\<close>

fun variant_tag :: "MarketData \<Rightarrow> DataType" where
  "variant_tag (Kline_alt k) = KLINE"
| "variant_tag (Trade_alt t) = TRADE"
| "variant_tag (BookL1_alt b) = BOOK_L1"

text \<open>
  The constructor \<^verbatim>\<open>Kline()\<close> zeroes the numbers and writes the terminating NUL into
  \<^verbatim>\<open>symbol[0]\<close>; a default-constructed variant holds such a \<^verbatim>\<open>Kline\<close>.
\<close>

definition Kline_default :: Kline where
  "Kline_default =
     \<lparr>Kline.timestamp = 0, open_price = 0, high = 0, low = 0, close = 0, volume = 0,
      Kline.symbol = [CHR 0x00]\<rparr>"

section \<open>The hub (msgbus/market_data_hub.hpp)\<close>

text \<open>
  What a callback does when it is called: it returns, or it throws an object that is
  derived from \<^verbatim>\<open>std::exception\<close> (with its \<^verbatim>\<open>what()\<close>) or one that is not, or it
  reads the \<^verbatim>\<open>const void*\<close> at a type other than that of the object pointed to.
\<close>

datatype thrown = Std_exception string | Other_exception

datatype cb_outcome = Returned | Threw thrown | Bad_cast

text \<open>
  \<^verbatim>\<open>using PyCallback = std::function<void(DataType, const void*)>\<close>. The pointer is
  modelled by the alternative it points to; \<open>'c\<close> is the state of the callee's world
  (the host runtime), which the call may change.
\<close>

type_synonym 'c PyCallback = "DataType \<Rightarrow> MarketData \<Rightarrow> 'c \<Rightarrow> cb_outcome \<times> 'c"

text \<open>
  Where the consumer thread of a subscriber is: started and about to take \<^verbatim>\<open>mutex_\<close>
  for the lookup of its own entry; in the \<^verbatim>\<open>while\<close> loop; or returned from
  \<^verbatim>\<open>consumer_thread\<close>.
\<close>

datatype thread_pc = At_lookup | In_loop | Finished

text \<open>
  \<^verbatim>\<open>struct Subscriber\<close>. The field \<^verbatim>\<open>id\<close> is called \<open>id'\<close>. \<open>thread\<close> is \<open>None\<close> for a
  null \<^verbatim>\<open>unique_ptr\<close> and otherwise says where the thread is.
\<close>

record 'c Subscriber =
  id' :: int
  data_type :: DataType
  callback :: "'c PyCallback"
  thread :: "thread_pc option"
  running :: bool
  reader_holder :: Reader

text \<open>
  \<^verbatim>\<open>Subscriber(int id, DataType type, PyCallback cb)\<close>; \<^verbatim>\<open>make_unique<ReaderHolder>()\<close>
  value-initialises the reader.
\<close>

definition Subscriber_new :: "int \<Rightarrow> DataType \<Rightarrow> 'c PyCallback \<Rightarrow> 'c Subscriber" where
  "Subscriber_new i type cb =
     \<lparr>id' = i, data_type = type, callback = cb, thread = None, running = False,
      reader_holder = \<lparr>next_idx = 0\<rparr>\<rparr>"

text \<open>
  \<^verbatim>\<open>class MarketDataHub\<close>, with the members \<^verbatim>\<open>queue_\<close>, \<^verbatim>\<open>subscribers_\<close> and
  \<^verbatim>\<open>next_subscriber_id_\<close> (the trailing underscore is not allowed in a name here). The
  \<^verbatim>\<open>unordered_map\<close> is an association list with one entry per key. Every public
  operation but \<open>add\<close> holds \<^verbatim>\<open>mutex_\<close> from its first to its last statement, and so
  does the lookup at the start of \<^verbatim>\<open>consumer_thread\<close>: they are the atomic steps of
  the model.
\<close>

record 'c MarketDataHub =
  queue :: "MarketData SPMCQueue"
  subscribers :: "(int \<times> 'c Subscriber) list"
  next_subscriber_id :: int

text \<open>\<^verbatim>\<open>MarketDataHub() : next_subscriber_id_(0) {}\<close>, with \<^verbatim>\<open>SPMCQueue<MarketData, 512>\<close>.\<close>

definition MarketDataHub_init :: "'c MarketDataHub" where
  "MarketDataHub_init =
     \<lparr>queue = SPMCQueue_init 512 (Kline_alt Kline_default), subscribers = [],
      next_subscriber_id = 0\<rparr>"

text \<open>
  How an operation or a thread can fail to go on: it waits for something that cannot
  happen; an exception leaves a thread function, which ends the process
  (\<^verbatim>\<open>std::terminate\<close>); or the behaviour is undefined.
\<close>

datatype failure = Deadlock | Terminate thrown | Undefined

text \<open>\<^verbatim>\<open>void add(const MarketData& data)\<close>\<close>

definition add :: "MarketData \<Rightarrow> 'c MarketDataHub \<Rightarrow> 'c MarketDataHub" where
  "add d h = h\<lparr>queue := write_value 512 d (queue h)\<rparr>"

text \<open>
  \<^verbatim>\<open>int subscribe(DataType data_type, PyCallback callback)\<close>, statement by statement,
  with the list of its effects in program order. \<^verbatim>\<open>next_subscriber_id_++\<close> on the
  largest \<^verbatim>\<open>int\<close> is undefined. The thread started by the \<^verbatim>\<open>std::thread\<close>
  constructor is at the lookup of \<^verbatim>\<open>consumer_thread\<close>.
\<close>

datatype action =
  Lock_mutex | Make_subscriber int | Get_reader int | Set_running int
  | Launch_thread int | Insert_table int | Unlock_mutex

definition subscribe_traced ::
  "DataType \<Rightarrow> 'c PyCallback \<Rightarrow> 'c MarketDataHub
     \<Rightarrow> failure + ((int \<times> 'c MarketDataHub) \<times> action list)" where
  "subscribe_traced type cb h =
     (let t = [Lock_mutex];
          sub_id = next_subscriber_id h
      in if sub_id = 2 ^ 31 - 1 then Inl Undefined
         else
           let h = h\<lparr>next_subscriber_id := sub_id + 1\<rparr>;
               subscriber = Subscriber_new sub_id type cb;
               t = t @ [Make_subscriber sub_id];
               subscriber = subscriber\<lparr>reader_holder := getReader (queue h)\<rparr>;
               t = t @ [Get_reader sub_id];
               subscriber = subscriber\<lparr>running := True\<rparr>;
               t = t @ [Set_running sub_id];
               subscriber = subscriber\<lparr>thread := Some At_lookup\<rparr>;
               t = t @ [Launch_thread sub_id];
               h = h\<lparr>subscribers := AList.update sub_id subscriber (subscribers h)\<rparr>;
               t = t @ [Insert_table sub_id];
               t = t @ [Unlock_mutex]
           in Inr ((sub_id, h), t))"

definition subscribe ::
  "DataType \<Rightarrow> 'c PyCallback \<Rightarrow> 'c MarketDataHub \<Rightarrow> failure + (int \<times> 'c MarketDataHub)" where
  "subscribe type cb h = map_sum (\<lambda>f. f) fst (subscribe_traced type cb h)"

text \<open>The effects of a call of \<open>subscribe\<close>, none when it fails.\<close>

definition subscribe_trace :: "DataType \<Rightarrow> 'c PyCallback \<Rightarrow> 'c MarketDataHub \<Rightarrow> action list" where
  "subscribe_trace type cb h =
     (case subscribe_traced type cb h of Inl f \<Rightarrow> [] | Inr (r, t) \<Rightarrow> t)"

text \<open>
  The specification's wording of an order of two effects: \<open>a\<close> happens, and \<open>b\<close> happens
  later.
\<close>

definition happens_before :: "action \<Rightarrow> action \<Rightarrow> action list \<Rightarrow> bool" where
  "happens_before a b t = (a \<in> set t \<and> b \<in> set (dropWhile (\<lambda>x. x \<noteq> a) t) \<and> a \<noteq> b)"

text \<open>
  \<^verbatim>\<open>thread->join()\<close> in an operation that holds \<^verbatim>\<open>mutex_\<close> and has cleared
  \<^verbatim>\<open>running\<close>. A thread in its loop leaves it at the next test of \<^verbatim>\<open>running\<close>, and the
  join returns. A thread that has not yet done its lookup needs \<^verbatim>\<open>mutex_\<close> to go
  on, and the holder of \<^verbatim>\<open>mutex_\<close> waits for the thread: the join does not return.
\<close>

fun join_holding_mutex :: "thread_pc \<Rightarrow> thread_pc option" where
  "join_holding_mutex At_lookup = None"
| "join_holding_mutex In_loop = Some Finished"
| "join_holding_mutex Finished = Some Finished"

text \<open>
  \<^verbatim>\<open>running = false; if (thread && thread->joinable()) thread->join();\<close> on one
  subscriber: \<open>None\<close> when the join does not return.
\<close>

definition stop_subscriber :: "'c Subscriber \<Rightarrow> 'c Subscriber option" where
  "stop_subscriber subscriber =
     (let subscriber = subscriber\<lparr>running := False\<rparr>
      in case thread subscriber of
           None \<Rightarrow> Some subscriber
         | Some pc \<Rightarrow>
             (case join_holding_mutex pc of
                None \<Rightarrow> None
              | Some pc' \<Rightarrow> Some (subscriber\<lparr>thread := Some pc'\<rparr>)))"

text \<open>\<^verbatim>\<open>void unsubscribe(int subscriber_id)\<close>\<close>

definition unsubscribe :: "int \<Rightarrow> 'c MarketDataHub \<Rightarrow> failure + 'c MarketDataHub" where
  "unsubscribe subscriber_id h =
     (case map_of (subscribers h) subscriber_id of
        None \<Rightarrow> Inr h
      | Some subscriber \<Rightarrow>
          (case stop_subscriber subscriber of
             None \<Rightarrow> Inl Deadlock
           | Some stopped \<Rightarrow>
               Inr (h\<lparr>subscribers := AList.delete subscriber_id (subscribers h)\<rparr>)))"

text \<open>\<^verbatim>\<open>void stop_all()\<close>: the loop over the table, then \<^verbatim>\<open>subscribers_.clear()\<close>.\<close>

fun stop_each :: "(int \<times> 'c Subscriber) list \<Rightarrow> bool" where
  "stop_each [] = True"
| "stop_each ((i, subscriber) # rest) =
     (case stop_subscriber subscriber of None \<Rightarrow> False | Some stopped \<Rightarrow> stop_each rest)"

definition stop_all :: "'c MarketDataHub \<Rightarrow> failure + 'c MarketDataHub" where
  "stop_all h =
     (if stop_each (subscribers h) then Inr (h\<lparr>subscribers := []\<rparr>) else Inl Deadlock)"

text \<open>\<^verbatim>\<open>size_t subscriber_count() const\<close>: the number of keys of the table.\<close>

definition subscriber_count :: "'c MarketDataHub \<Rightarrow> nat" where
  "subscriber_count h = length (remdups (map fst (subscribers h)))"

text \<open>
  \<^verbatim>\<open>void consumer_thread(int subscriber_id)\<close>, first part: the lookup under \<^verbatim>\<open>mutex_\<close>.
  A thread that does not find its entry returns; it has no entry to record that in.
\<close>

definition consumer_thread_lookup :: "int \<Rightarrow> 'c MarketDataHub \<Rightarrow> 'c MarketDataHub" where
  "consumer_thread_lookup subscriber_id h =
     (case map_of (subscribers h) subscriber_id of
        None \<Rightarrow> h
      | Some subscriber \<Rightarrow>
          h\<lparr>subscribers :=
              AList.update subscriber_id (subscriber\<lparr>thread := Some In_loop\<rparr>) (subscribers h)\<rparr>)"

text \<open>
  \<^verbatim>\<open>consumer_thread\<close>, second part: the test of the \<^verbatim>\<open>while\<close> loop and one pass
  through its body, on the subscriber the thread points to, the ring and the host
  state. The result is the failure that ends the thread, if any, the subscriber and the
  host state afterwards, and the call of the callback made in this pass, if any.
  An exception that leaves the callback leaves \<^verbatim>\<open>consumer_thread\<close> too: there
  is no handler in it.
\<close>

definition consumer_thread_iteration ::
  "'c Subscriber \<Rightarrow> MarketData SPMCQueue \<Rightarrow> 'c
     \<Rightarrow> failure option \<times> 'c Subscriber \<times> 'c \<times> (DataType \<times> MarketData) option" where
  "consumer_thread_iteration subscriber q c =
     (let target_type = data_type subscriber
      in if \<not> running subscriber then (None, subscriber\<lparr>thread := Some Finished\<rparr>, c, None)
         else
           (case read 512 (q, reader_holder subscriber) of
              (None, q', r') \<Rightarrow> (None, subscriber\<lparr>reader_holder := r'\<rparr>, c, None)
            | (Some data_ptr, q', r') \<Rightarrow>
                let subscriber = subscriber\<lparr>reader_holder := r'\<rparr>;
                    current_type = variant_tag (deref q' data_ptr)
                in if current_type \<noteq> target_type then (None, subscriber, c, None)
                   else
                     let data_copy = deref q' data_ptr
                     in (case callback subscriber current_type data_copy c of
                           (Returned, c') \<Rightarrow>
                             (None, subscriber, c', Some (current_type, data_copy))
                         | (Threw e, c') \<Rightarrow>
                             (Some (Terminate e), subscriber, c', Some (current_type, data_copy))
                         | (Bad_cast, c') \<Rightarrow>
                             (Some Undefined, subscriber, c', Some (current_type, data_copy)))))"

subsection \<open>Executions of the hub\<close>

text \<open>
  The hub with the host state and the log of the calls of callbacks made so far
  (subscriber id, tag passed, payload passed).
\<close>

record 'c system =
  hub :: "'c MarketDataHub"
  host :: 'c
  calls :: "(int \<times> DataType \<times> MarketData) list"

definition system_init :: "'c \<Rightarrow> 'c system" where
  "system_init c = \<lparr>hub = MarketDataHub_init, host = c, calls = []\<rparr>"

text \<open>
  The steps of an execution: a call of a public operation by a client, or the next
  step of the consumer thread of a subscriber (its lookup, or one pass of its loop).
\<close>

datatype 'c event =
  Add MarketData | Subscribe DataType "'c PyCallback" | Unsubscribe int | Stop_all
  | Thread_step int

definition thread_step :: "int \<Rightarrow> 'c system \<Rightarrow> failure option \<times> 'c system" where
  "thread_step i s =
     (case map_of (subscribers (hub s)) i of
        None \<Rightarrow> (None, s)
      | Some subscriber \<Rightarrow>
          (case thread subscriber of
             Some At_lookup \<Rightarrow> (None, s\<lparr>hub := consumer_thread_lookup i (hub s)\<rparr>)
           | Some In_loop \<Rightarrow>
               (case consumer_thread_iteration subscriber (queue (hub s)) (host s) of
                  (f, subscriber', c', call) \<Rightarrow>
                    (f, s\<lparr>hub := (hub s)\<lparr>subscribers :=
                                  AList.update i subscriber' (subscribers (hub s))\<rparr>,
                           host := c',
                           calls := calls s @ (case call of None \<Rightarrow> []
                                                | Some (t, d) \<Rightarrow> [(i, t, d)])\<rparr>))
           | _ \<Rightarrow> (None, s)))"

fun step :: "'c event \<Rightarrow> 'c system \<Rightarrow> failure option \<times> 'c system" where
  "step (Add d) s = (None, s\<lparr>hub := add d (hub s)\<rparr>)"
| "step (Subscribe type cb) s =
     (case subscribe type cb (hub s) of
        Inl f \<Rightarrow> (Some f, s)
      | Inr (i, h) \<Rightarrow> (None, s\<lparr>hub := h\<rparr>))"
| "step (Unsubscribe i) s =
     (case unsubscribe i (hub s) of
        Inl f \<Rightarrow> (Some f, s)
      | Inr h \<Rightarrow> (None, s\<lparr>hub := h\<rparr>))"
| "step Stop_all s =
     (case stop_all (hub s) of
        Inl f \<Rightarrow> (Some f, s)
      | Inr h \<Rightarrow> (None, s\<lparr>hub := h\<rparr>))"
| "step (Thread_step i) s = thread_step i s"

text \<open>An execution stops at the first failure.\<close>

fun run :: "'c event list \<Rightarrow> 'c system \<Rightarrow> failure option \<times> 'c system" where
  "run [] s = (None, s)"
| "run (ev # evs) s =
     (case step ev s of
        (None, s') \<Rightarrow> run evs s'
      | (Some f, s') \<Rightarrow> (Some f, s'))"


section \<open>The binding (msgbus/python_bindings.cpp)\<close>

text \<open>
  Values and dictionaries of the host language, and what a callable of the host
  language does when it is called with the name of the data type and the dictionary:
  it returns, or it raises an error, which the binding library throws as an exception
  derived from \<^verbatim>\<open>std::exception\<close> with the given \<^verbatim>\<open>what()\<close>.
\<close>

datatype py_value = Py_int nat | Py_float double | Py_str string | Py_bool bool

type_synonym py_dict = "(string \<times> py_value) list"

datatype py_outcome = Py_return | Py_raise string

type_synonym 'c py_callable = "string \<Rightarrow> py_dict \<Rightarrow> 'c \<Rightarrow> py_outcome \<times> 'c"

text \<open>
  The two functions of the binding library that the wrapper uses and that are no part
  of this repository: the conversion of a \<^verbatim>\<open>std::string\<close> to a string of the host
  language, which raises an error (\<open>Inl\<close> with its message) when the bytes cannot be
  decoded, and \<^verbatim>\<open>py::print\<close>.
\<close>

record 'c pybind =
  cast_string :: "string \<Rightarrow> string + py_value"
  py_print :: "string list \<Rightarrow> 'c \<Rightarrow> 'c"

text \<open>\<^verbatim>\<open>std::string(p->symbol, strnlen(p->symbol, sizeof(p->symbol)))\<close>\<close>

definition symbol_string :: "string \<Rightarrow> string" where
  "symbol_string symb = takeWhile (\<lambda>ch. ch \<noteq> CHR 0x00) (take 32 symb)"

text \<open>
  The body of the \<^verbatim>\<open>try\<close> block after the fields are read: the dictionary is filled,
  the symbol last but one or last as in the source, and the callable is called. The
  result is the message of the exception thrown in the block, if any.
\<close>

definition call_python ::
  "'c pybind \<Rightarrow> 'c py_callable \<Rightarrow> string \<Rightarrow> py_dict \<Rightarrow> string \<Rightarrow> py_dict \<Rightarrow> 'c
     \<Rightarrow> string option \<times> 'c" where
  "call_python lib callback_fn name before symb after c =
     (case cast_string lib (symbol_string symb) of
        Inl msg \<Rightarrow> (Some msg, c)
      | Inr v \<Rightarrow>
          (case callback_fn name (before @ [(''symbol'', v)] @ after) c of
             (Py_return, c') \<Rightarrow> (None, c')
           | (Py_raise msg, c') \<Rightarrow> (Some msg, c')))"

text \<open>
  \<^verbatim>\<open>void PyCallbackWrapper::operator()(DataType data_type, const void* data_ptr)\<close>:
  the \<^verbatim>\<open>switch\<close> with its casts inside \<^verbatim>\<open>try\<close>, and the handler
  \<^verbatim>\<open>catch (const std::exception& e) { py::print("Error in callback:", e.what()); }\<close>.
  A cast to the type of another alternative than the one pointed to is \<open>Bad_cast\<close>.
  Taking the interpreter lock before the \<^verbatim>\<open>try\<close> block is not modelled.
\<close>

definition PyCallbackWrapper :: "'c pybind \<Rightarrow> 'c py_callable \<Rightarrow> 'c PyCallback" where
  "PyCallbackWrapper lib callback_fn type data_ptr c =
     (let attempt =
        (case (type, data_ptr) of
           (KLINE, Kline_alt kline) \<Rightarrow>
             Some (call_python lib callback_fn ''kline''
               [(''timestamp'', Py_int (unat (Kline.timestamp kline))),
                (''open'', Py_float (open_price kline)),
                (''high'', Py_float (high kline)),
                (''low'', Py_float (low kline)),
                (''close'', Py_float (close kline)),
                (''volume'', Py_float (volume kline))]
               (Kline.symbol kline) [] c)
         | (TRADE, Trade_alt trade) \<Rightarrow>
             Some (call_python lib callback_fn ''trade''
               [(''timestamp'', Py_int (unat (Trade.timestamp trade))),
                (''price'', Py_float (price trade)),
                (''quantity'', Py_float (quantity trade))]
               (Trade.symbol trade)
               [(''is_buyer_maker'', Py_bool (is_buyer_maker trade))] c)
         | (BOOK_L1, BookL1_alt book) \<Rightarrow>
             Some (call_python lib callback_fn ''book_l1''
               [(''timestamp'', Py_int (unat (BookL1.timestamp book))),
                (''bid_price'', Py_float (bid_price book)),
                (''bid_quantity'', Py_float (bid_quantity book)),
                (''ask_price'', Py_float (ask_price book)),
                (''ask_quantity'', Py_float (ask_quantity book))]
               (BookL1.symbol book) [] c)
         | _ \<Rightarrow> None)
      in case attempt of
           None \<Rightarrow> (Bad_cast, c)
         | Some (None, c') \<Rightarrow> (Returned, c')
         | Some (Some what, c') \<Rightarrow> (Returned, py_print lib [''Error in callback:'', what] c'))"

text \<open>
  The \<^verbatim>\<open>subscribe\<close> of the bound class: the callable of the host language is wrapped,
  and the wrapper is what the hub gets as callback.
\<close>

definition py_subscribe ::
  "'c pybind \<Rightarrow> DataType \<Rightarrow> 'c py_callable \<Rightarrow> 'c MarketDataHub
     \<Rightarrow> failure + (int \<times> 'c MarketDataHub)" where
  "py_subscribe lib type callback_fn h = subscribe type (PyCallbackWrapper lib callback_fn) h"



subsection \<open>Invariants of executions\<close>



subsection \<open>Inputs of the examples\<close>

text \<open>A callback that returns, one that throws, and a trade.\<close>

definition quiet_callback :: "unit PyCallback" where
  "quiet_callback type data_ptr c = (Returned, c)"




definition py_quiet :: "(string list) py_callable" where
  "py_quiet name d c = (Py_return, c)"



section \<open>Properties of the ring\<close>

subsection \<open>The capacity is a power of two\<close>

lemma and_even_odd_nat: "(2 * y) AND (2 * (z::nat) + 1) = 2 * (y AND z)"
  by (subst and_nat_rec) simp

lemma and_odd_even_nat: "(2 * y + 1) AND (2 * (y::nat)) = 2 * y"
  by (subst and_nat_rec) simp

lemma pow2_nat_aux:
  fixes x :: nat
  shows "0 < x \<Longrightarrow> x AND (x - 1) = 0 \<Longrightarrow> \<exists>n. x = 2 ^ n"
proof (induction x rule: less_induct)
  case (less x)
  show ?case
  proof (cases "even x")
    case True
    then obtain y where y: "x = 2 * y" by (auto elim: evenE)
    with less.prems have ypos: "0 < y" by simp
    have "x - 1 = 2 * (y - 1) + 1" using y ypos by simp
    then have "x AND (x - 1) = 2 * (y AND (y - 1))"
      using y and_even_odd_nat by simp
    with less.prems have "y AND (y - 1) = 0" by simp
    moreover have "y < x" using y ypos by simp
    ultimately obtain n where "y = 2 ^ n" using less.IH ypos by blast
    then have "x = 2 ^ Suc n" using y by simp
    then show ?thesis by blast
  next
    case False
    then obtain y where y: "x = 2 * y + 1" by (auto elim: oddE)
    then have "x AND (x - 1) = 2 * y" using and_odd_even_nat by simp
    with less.prems have "y = 0" by simp
    then have "x = 2 ^ 0" using y by simp
    then show ?thesis by blast
  qed
qed

lemma CNT_ok_pow2:
  assumes "CNT_ok CNT"
  shows "\<exists>n<32. unat CNT = 2 ^ n"
proof -
  from assms have nz: "CNT \<noteq> 0" and z: "CNT AND (CNT - 1) = 0"
    by (simp_all add: CNT_ok_def)
  have pos: "0 < unat CNT" using nz by (simp add: unat_gt_0)
  have "unat (CNT AND (CNT - 1)) = unat CNT AND (unat CNT - 1)"
    using nz by (simp add: unsigned_and_eq unat_minus_one)
  with z have "unat CNT AND (unat CNT - 1) = 0" by simp
  with pos obtain n where n: "unat CNT = 2 ^ n" using pow2_nat_aux by blast
  have "unat CNT < 2 ^ 32" using unsigned_less [of CNT] by simp
  with n have "(2::nat) ^ n < 2 ^ 32" by simp
  then have "n < 32" by (simp only: power_strict_increasing_iff) 
  with n show ?thesis by blast
qed

lemma CNT_ok_dvd: "CNT_ok CNT \<Longrightarrow> unat CNT dvd 2 ^ 32"
proof -
  assume "CNT_ok CNT"
  then obtain n where "n < 32" "unat CNT = 2 ^ n" using CNT_ok_pow2 by blast
  moreover have "(2::nat) ^ n dvd 2 ^ 32"
    using \<open>n < 32\<close> by (intro le_imp_power_dvd) simp
  ultimately show ?thesis by simp
qed

lemma slot_of_nat:
  assumes "CNT_ok CNT"
  shows "unat ((of_nat k :: uint32_t) mod CNT) = k mod unat CNT"
proof -
  have "unat ((of_nat k :: uint32_t) mod CNT) = (k mod 2 ^ 32) mod unat CNT"
    by (simp add: unat_mod unat_of_nat)
  also have "\<dots> = k mod unat CNT"
    using CNT_ok_dvd [OF assms] by (rule mod_mod_cancel)
  finally show ?thesis .
qed


lemma CNT_ok_pos: "CNT_ok CNT \<Longrightarrow> 0 < unat CNT"
  by (simp add: CNT_ok_def unat_gt_0)

lemma CNT_ok_le: "CNT_ok CNT \<Longrightarrow> unat CNT \<le> 2 ^ 31"
proof -
  assume "CNT_ok CNT"
  then obtain n where n: "n < 32" "unat CNT = 2 ^ n" using CNT_ok_pow2 by blast
  then have "n \<le> 31" by simp
  then have "(2::nat) ^ n \<le> 2 ^ 31" by (intro power_increasing) simp_all
  with n show ?thesis by simp
qed


lemma CNT_ok_4: "CNT_ok 4"
  by (simp add: CNT_ok_def)

subsection \<open>Reading\<close>

lemma unat_succ_nonneg:
  fixes x :: uint32_t
  assumes "\<not> sint x < 0"
  shows "unat (x + 1) = unat x + 1"
proof -
  have "x \<noteq> - 1" using assms by auto
  then have "1 + x \<noteq> 0" by (simp add: add_eq_0_iff)
  then have "unat (1 + x) = Suc (unat x)" by (rule unatSuc)
  then show ?thesis by (simp add: add.commute)
qed

text \<open>
  C1. \<open>read\<close> returns none exactly when the signed 32-bit difference between the
  sequence number observed in slot \<open>next_idx mod CNT\<close> and \<open>next_idx\<close> is negative.
  Otherwise it returns a pointer to that slot's payload and sets \<open>next_idx\<close> to the
  observed number plus one: the cursor moves past the record returned and past the
  \<open>observed - next_idx\<close> records before it, which this reader never gets.
\<close>

theorem read_spec: "(let slot = unat (next_idx r mod CNT);
        observed = idx (blks q ! slot);
        res = read CNT (q, r)
    in (fst res = None \<longleftrightarrow> sint (observed - next_idx r) < 0) \<and>
       (\<not> sint (observed - next_idx r) < 0 \<longrightarrow>
          res = (Some slot, q, r\<lparr>next_idx := observed + 1\<rparr>) \<and>
          deref (fst (snd res)) slot = data (blks q ! slot) \<and>
          unat (next_idx (snd (snd res)) - next_idx r) = unat (observed - next_idx r) + 1))"
proof -
  have "unat (x + 1 - y) = unat (x - y) + 1" if "\<not> sint (x - y) < 0" for x y :: uint32_t
  proof -
    have e: "x + 1 - y = (x - y) + 1" by simp
    show ?thesis unfolding e by (rule unat_succ_nonneg [OF that])
  qed
  then show ?thesis
    by (simp add: read_def Let_def deref_def)
qed


theorem read_spec_witness:
  "\<not> sint ((5::uint32_t) - 1) < 0 \<and>
   read 4 (\<lparr>blks = [\<lparr>idx = 4, data = 40::nat\<rparr>, \<lparr>idx = 5, data = 50\<rparr>,
                    \<lparr>idx = 6, data = 60\<rparr>, \<lparr>idx = 3, data = 30\<rparr>], write_idx = 6\<rparr>,
           \<lparr>next_idx = 1\<rparr>) =
     (Some 1,
      \<lparr>blks = [\<lparr>idx = 4, data = 40::nat\<rparr>, \<lparr>idx = 5, data = 50\<rparr>,
                \<lparr>idx = 6, data = 60\<rparr>, \<lparr>idx = 3, data = 30\<rparr>], write_idx = 6\<rparr>,
      \<lparr>next_idx = 6\<rparr>) \<and>
   unat ((6::uint32_t) - 1) = unat ((5::uint32_t) - 1) + 1"
  using read_spec [of "\<lparr>next_idx = 1\<rparr>" 4
      "\<lparr>blks = [\<lparr>idx = 4, data = 40::nat\<rparr>, \<lparr>idx = 5, data = 50\<rparr>,
                \<lparr>idx = 6, data = 60\<rparr>, \<lparr>idx = 3, data = 30\<rparr>], write_idx = 6\<rparr>"]
  by (simp add: Let_def unat_mod)


text \<open>
  C10. When \<open>read\<close> returns none it changes nothing: the ring, with every slot, and
  the reader's \<open>next_idx\<close> are as before, so reading again gives the same result.
\<close>

theorem read_none_unchanged: "fst (read CNT (q, r)) = None \<Longrightarrow>
    snd (read CNT (q, r)) = (q, r) \<and> read CNT (snd (read CNT (q, r))) = read CNT (q, r)"
  by (simp add: read_def Let_def split: if_splits)


theorem read_none_unchanged_witness:
  "fst (read 4 (SPMCQueue_init 4 (0::nat), getReader (SPMCQueue_init 4 (0::nat)))) = None \<and>
   snd (read 4 (SPMCQueue_init 4 (0::nat), getReader (SPMCQueue_init 4 (0::nat)))) =
     (SPMCQueue_init 4 0, getReader (SPMCQueue_init 4 (0::nat)))"
proof -
  have "fst (read 4 (SPMCQueue_init 4 (0::nat), getReader (SPMCQueue_init 4 (0::nat)))) = None"
    by code_simp
  with read_none_unchanged [OF this] show ?thesis by simp
qed

subsection \<open>The signed comparison across the wrap-around\<close>

lemma sint_diff_of_nat:
  fixes a b :: nat
  assumes "- (2 ^ 31) \<le> int a - int b" "int a - int b < 2 ^ 31"
  shows "sint ((of_nat a :: uint32_t) - of_nat b) = int a - int b"
proof -
  have "(of_nat a :: uint32_t) - of_nat b = word_of_int (int a - int b)"
    by simp
  then have "sint ((of_nat a :: uint32_t) - of_nat b) = signed_take_bit 31 (int a - int b)"
    by (simp only: sint_sbintrunc') simp
  also have "\<dots> = int a - int b"
    using assms by (intro signed_take_bit_int_eq_self) simp_all
  finally show ?thesis .
qed

text \<open>
  C4. Let \<open>a\<close> and \<open>b\<close> be the sequence numbers without wrap-around that the observed
  \<open>idx\<close> and the reader's \<open>next_idx\<close> stand for modulo \<open>2 ^ 32\<close>. Whenever their
  difference \<open>a - b\<close> lies in \<open>[- 2 ^ 31, 2 ^ 31)\<close>, the test of \<open>read\<close> answers
  "not yet produced" exactly when \<open>a < b\<close>, whatever multiples of \<open>2 ^ 32\<close> the two
  counters have passed.
\<close>

theorem signed_test_wraparound:
  fixes a b :: nat
  assumes "idx (blks q ! unat (next_idx r mod CNT)) = of_nat a" "next_idx r = of_nat b"
    "- (2 ^ 31) \<le> int a - int b" "int a - int b < 2 ^ 31"
  shows "fst (read CNT (q, r)) = None \<longleftrightarrow> int a - int b < 0"
  using assms sint_diff_of_nat [of a b]
  by (simp add: read_def Let_def)


theorem signed_test_wraparound_witness:
  "idx (blks \<lparr>blks = [\<lparr>idx = 0, data = 40::nat\<rparr>, \<lparr>idx = 1, data = 50\<rparr>,
                      \<lparr>idx = 2, data = 60\<rparr>, \<lparr>idx = 3, data = 70\<rparr>], write_idx = 3\<rparr> !
        unat (next_idx \<lparr>next_idx = 4294967295\<rparr> mod 4)) = of_nat 4294967299 \<and>
   next_idx \<lparr>next_idx = 4294967295\<rparr> = of_nat 4294967295 \<and>
   - (2 ^ 31) \<le> int 4294967299 - int 4294967295 \<and>
   int 4294967299 - int 4294967295 < 2 ^ 31 \<and>
   fst (read 4 (\<lparr>blks = [\<lparr>idx = 0, data = 40::nat\<rparr>, \<lparr>idx = 1, data = 50\<rparr>,
                        \<lparr>idx = 2, data = 60\<rparr>, \<lparr>idx = 3, data = 70\<rparr>], write_idx = 3\<rparr>,
                \<lparr>next_idx = 4294967295\<rparr>)) \<noteq> None"
proof -
  let ?q = "\<lparr>blks = [\<lparr>idx = 0, data = 40::nat\<rparr>, \<lparr>idx = 1, data = 50\<rparr>,
                    \<lparr>idx = 2, data = 60\<rparr>, \<lparr>idx = 3, data = 70\<rparr>], write_idx = 3\<rparr>"
  let ?r = "\<lparr>next_idx = 4294967295\<rparr>"
  have h1: "idx (blks ?q ! unat (next_idx ?r mod 4)) = of_nat 4294967299"
    by (simp add: unat_mod)
  have h2: "next_idx ?r = of_nat 4294967295" by simp
  have h3: "- (2 ^ 31) \<le> int 4294967299 - int 4294967295" by simp
  have h4: "int 4294967299 - int 4294967295 < 2 ^ 31" by simp
  from signed_test_wraparound [OF h1 h2 h3 h4] have "fst (read 4 (?q, ?r)) \<noteq> None"
    by simp
  with h1 h2 h3 h4 show ?thesis by blast
qed

subsection \<open>Writing\<close>

lemma writes_append: "writes CNT (ws @ ws') s = writes CNT ws' (writes CNT ws s)"
  by (induction ws arbitrary: s) simp_all

lemma writes_snoc: "writes CNT (ws @ [w]) s = SPMCQueue_write CNT w (writes CNT ws s)"
  by (simp add: writes_append)

lemma update_twice_idx:
  "(xs[i := (xs ! i)\<lparr>data := d\<rparr>])[i := ((xs[i := (xs ! i)\<lparr>data := d\<rparr>]) ! i)\<lparr>idx := w\<rparr>] =
   xs[i := \<lparr>idx = w, data = d\<rparr>]"
proof (cases "i < length xs")
  case True
  have e: "(xs ! i)\<lparr>data := d, idx := w\<rparr> = \<lparr>idx = w, data = d\<rparr>"
    by (cases "xs ! i") simp
  have "(xs[i := (xs ! i)\<lparr>data := d\<rparr>]) ! i = (xs ! i)\<lparr>data := d\<rparr>"
    using True by simp
  then show ?thesis by (simp only: list_update_overwrite e)
next
  case False
  then show ?thesis by (simp add: list_update_beyond)
qed

lemma publish_filled:
  "blks (write_publish CNT (q\<lparr>blks := (blks q)[write_slot CNT q :=
       (blks q ! write_slot CNT q)\<lparr>data := d\<rparr>]\<rparr>)) =
   (blks q)[write_slot CNT q := \<lparr>idx = write_idx q, data = d\<rparr>]"
proof -
  have s: "write_slot CNT (q\<lparr>blks := xs\<rparr>) = write_slot CNT q" for xs
    by (simp add: write_slot_def)
  show ?thesis
    unfolding write_publish_def Let_def s
    by (simp del: list_update_overwrite nth_list_update_eq add: update_twice_idx)
qed

lemma write_fields:
  "write_idx (fst (SPMCQueue_write CNT w s)) = write_idx (fst s) + 1"
  "blks (fst (SPMCQueue_write CNT w s)) =
     (blks (fst s))[unat ((write_idx (fst s) + 1) mod CNT) :=
        \<lparr>idx = write_idx (fst s) + 1,
         data = fst (w (data (blks (fst s) ! unat ((write_idx (fst s) + 1) mod CNT))) (snd s))\<rparr>]"
  "snd (SPMCQueue_write CNT w s) =
     snd (w (data (blks (fst s) ! unat ((write_idx (fst s) + 1) mod CNT))) (snd s))"
proof -
  let ?q = "write_advance (fst s)"
  obtain d env' where f: "w (data (blks ?q ! write_slot CNT ?q)) (snd s) = (d, env')"
    by (cases "w (data (blks ?q ! write_slot CNT ?q)) (snd s)")
  have sl: "write_slot CNT ?q = unat ((write_idx (fst s) + 1) mod CNT)"
    by (simp add: write_slot_def write_advance_def)
  have bq: "blks ?q = blks (fst s)" and wq: "write_idx ?q = write_idx (fst s) + 1"
    by (simp_all add: write_advance_def)
  have fill: "write_fill CNT w (?q, snd s) =
      (?q\<lparr>blks := (blks ?q)[write_slot CNT ?q := (blks ?q ! write_slot CNT ?q)\<lparr>data := d\<rparr>]\<rparr>, env')"
    by (simp add: write_fill_def Let_def f)
  have res: "SPMCQueue_write CNT w s =
      (write_publish CNT (?q\<lparr>blks := (blks ?q)[write_slot CNT ?q :=
          (blks ?q ! write_slot CNT ?q)\<lparr>data := d\<rparr>]\<rparr>), env')"
    by (simp only: SPMCQueue_write_def fill prod.case)
  have f': "w (data (blks (fst s) ! unat ((write_idx (fst s) + 1) mod CNT))) (snd s) = (d, env')"
    using f by (simp only: sl bq)
  show "write_idx (fst (SPMCQueue_write CNT w s)) = write_idx (fst s) + 1"
    unfolding res by (simp add: write_publish_def Let_def wq)
  show "blks (fst (SPMCQueue_write CNT w s)) =
     (blks (fst s))[unat ((write_idx (fst s) + 1) mod CNT) :=
        \<lparr>idx = write_idx (fst s) + 1,
         data = fst (w (data (blks (fst s) ! unat ((write_idx (fst s) + 1) mod CNT))) (snd s))\<rparr>]"
    unfolding res f' fst_conv publish_filled by (simp only: sl bq wq)
  show "snd (SPMCQueue_write CNT w s) =
     snd (w (data (blks (fst s) ! unat ((write_idx (fst s) + 1) mod CNT))) (snd s))"
    unfolding res f' by simp
qed


lemma init_fields:
  "length (blks (SPMCQueue_init CNT d0)) = unat CNT"
  "write_idx (SPMCQueue_init CNT d0) = 0"
  "i < unat CNT \<Longrightarrow> blks (SPMCQueue_init CNT d0) ! i = \<lparr>idx = 0, data = d0\<rparr>"
  by (simp_all add: SPMCQueue_init_def)

lemma step_blks:
  assumes ok: "CNT_ok CNT" and wi: "write_idx (fst s) = of_nat k"
  shows "blks (fst (SPMCQueue_write CNT w s)) =
     (blks (fst s))[Suc k mod unat CNT := \<lparr>idx = of_nat (Suc k),
        data = fst (w (data (blks (fst s) ! (Suc k mod unat CNT))) (snd s))\<rparr>]"
proof -
  have w1: "write_idx (fst s) + 1 = of_nat (Suc k)" using wi by simp
  show ?thesis by (simp only: write_fields(2) w1 slot_of_nat [OF ok])
qed


subsection \<open>Sequence numbers of a slot over a run of writes\<close>

lemma last_write_le: "last_write N k i \<le> k"
  by (induction k) auto

lemma last_write_mod: "last_write N k i \<noteq> 0 \<Longrightarrow> last_write N k i mod N = i"
  by (induction k) (auto split: if_splits)

lemma last_write_ge: "s \<le> k \<Longrightarrow> s mod N = i \<Longrightarrow> s \<le> last_write N k i"
proof (induction k)
  case 0
  then show ?case by simp
next
  case (Suc k)
  then show ?case by (cases "s = Suc k") auto
qed

lemma last_write_zero: "0 < N \<Longrightarrow> i < N \<Longrightarrow> last_write N k i = 0 \<Longrightarrow> s \<le> k \<Longrightarrow> s mod N = i \<Longrightarrow> s = 0"
  using last_write_ge [of s k N i] by simp

lemma last_write_largest_seq:
  assumes "0 < N" "i < N"
  shows "last_write N k i = largest_seq N k i"
proof (cases "\<exists>s\<in>{0..k}. s mod N = i")
  case True
  let ?S = "{s \<in> {0..k}. s mod N = i}"
  have fin: "finite ?S" by simp
  have ne: "?S \<noteq> {}" using True by auto
  have "last_write N k i \<in> ?S"
  proof (cases "last_write N k i = 0")
    case z: True
    from True obtain s where "s \<le> k" "s mod N = i" by auto
    then have "s = 0" using last_write_zero [OF assms z] by blast
    with \<open>s mod N = i\<close> have "i = 0" by simp
    with z show ?thesis by simp
  next
    case False
    then show ?thesis using last_write_mod [of N k i] last_write_le [of N k i] by simp
  qed
  moreover have "\<forall>s\<in>?S. s \<le> last_write N k i"
    using last_write_ge by auto
  ultimately have "Max ?S = last_write N k i"
    using fin by (intro Max_eqI) auto
  with True show ?thesis by (simp add: largest_seq_def)
next
  case False
  have "last_write N k i = 0"
  proof (rule ccontr)
    assume nz: "last_write N k i \<noteq> 0"
    then have "last_write N k i mod N = i" by (rule last_write_mod)
    moreover have "last_write N k i \<in> {0..k}" using last_write_le [of N k i] by simp
    ultimately show False using False by blast
  qed
  with False show ?thesis by (simp add: largest_seq_def)
qed

lemma last_write_mono: "k \<le> K \<Longrightarrow> last_write N k i \<le> last_write N K i"
proof (induction K)
  case 0
  then show ?case by simp
next
  case (Suc K)
  show ?case
  proof (cases "k = Suc K")
    case True
    then show ?thesis by simp
  next
    case False
    with Suc have "last_write N k i \<le> last_write N K i" by simp
    moreover have "last_write N K i \<le> Suc K" using last_write_le [of N K i] by simp
    ultimately show ?thesis by simp
  qed
qed

lemma last_write_old:
  "k \<le> K \<Longrightarrow> last_write N K i \<le> k \<Longrightarrow> last_write N K i = last_write N k i"
proof (induction K)
  case 0
  then show ?case by simp
next
  case (Suc K)
  show ?case
  proof (cases "k = Suc K")
    case True
    then show ?thesis by simp
  next
    case False
    with Suc.prems have kK: "k \<le> K" by simp
    show ?thesis
    proof (cases "Suc K mod N = i")
      case True
      with Suc.prems kK show ?thesis by simp
    next
      case False
      with Suc kK show ?thesis by simp
    qed
  qed
qed

lemma last_write_self: "0 < k \<Longrightarrow> k mod N = i \<Longrightarrow> last_write N k i = k"
  using last_write_ge [of k k N i] last_write_le [of N k i] by simp

lemma ring_after_writes:
  assumes ok: "CNT_ok CNT"
  shows "length (blks (fst (writes CNT ws (SPMCQueue_init CNT d0, e)))) = unat CNT \<and>
         write_idx (fst (writes CNT ws (SPMCQueue_init CNT d0, e))) = of_nat (length ws) \<and>
         (\<forall>i<unat CNT. idx (blks (fst (writes CNT ws (SPMCQueue_init CNT d0, e))) ! i) =
              of_nat (last_write (unat CNT) (length ws) i))"
proof (induction ws rule: rev_induct)
  case Nil
  then show ?case by (simp add: init_fields)
next
  case (snoc w ws)
  let ?s = "writes CNT ws (SPMCQueue_init CNT d0, e)"
  let ?k = "length ws"
  from snoc have len: "length (blks (fst ?s)) = unat CNT"
    and wi: "write_idx (fst ?s) = of_nat ?k"
    and ix: "\<And>i. i < unat CNT \<Longrightarrow> idx (blks (fst ?s) ! i) = of_nat (last_write (unat CNT) ?k i)"
    by simp_all
  have w1: "write_idx (fst ?s) + 1 = of_nat (Suc ?k)" using wi by simp
  have slot: "unat ((write_idx (fst ?s) + 1) mod CNT) = Suc ?k mod unat CNT"
    unfolding w1 by (rule slot_of_nat [OF ok])
  have lt: "Suc ?k mod unat CNT < unat CNT" using CNT_ok_pos [OF ok] by simp
  let ?j = "Suc ?k mod unat CNT"
  let ?q' = "fst (SPMCQueue_write CNT w ?s)"
  have b: "blks ?q' = (blks (fst ?s))[?j := \<lparr>idx = of_nat (Suc ?k),
             data = fst (w (data (blks (fst ?s) ! ?j)) (snd ?s))\<rparr>]"
    by (simp only: write_fields(2) w1 slot_of_nat [OF ok])
  have "length (blks ?q') = unat CNT" using b len by simp
  moreover have "write_idx ?q' = of_nat (length (ws @ [w]))"
    using w1 by (simp add: write_fields(1))
  moreover have "idx (blks ?q' ! i) = of_nat (last_write (unat CNT) (length (ws @ [w])) i)"
    if "i < unat CNT" for i
  proof (cases "i = ?j")
    case True
    then show ?thesis using b lt len by simp
  next
    case False
    then show ?thesis using b ix [OF that] by simp
  qed
  ultimately show ?case
    unfolding writes_snoc by blast
qed

text \<open>
  C3, as the code has it. After \<open>k\<close> writes on a fresh ring of capacity \<open>N\<close>, the
  \<open>idx\<close> of slot \<open>i\<close> is, modulo \<open>2 ^ 32\<close>, the largest \<open>s \<le> k\<close> with
  \<open>s mod N = i\<close>, or 0 if there is none, and it is that number itself while
  \<open>k < 2 ^ 32\<close>. So the values of slot \<open>i\<close> are 0 and then the write numbers congruent
  to \<open>i\<close> modulo \<open>N\<close> (\<open>i\<close>, \<open>i + N\<close>, \<open>i + 2 * N\<close>, ..., without the 0 for slot
  0): write number \<open>k + 1\<close> changes the \<open>idx\<close> of slot \<open>(k + 1) mod N\<close> to \<open>k + 1\<close> and
  of no other slot. The \<open>idx\<close> of a slot does not decrease as long as fewer than
  \<open>2 ^ 32\<close> writes have been made on the ring since it was constructed.
\<close>

theorem slot_seq_values:
  assumes ok: "CNT_ok CNT" and i: "i < unat CNT"
  shows "(let N = unat CNT;
              k = length ws;
              q = fst (writes CNT ws (SPMCQueue_init CNT d0, e))
          in idx (blks q ! i) = of_nat (largest_seq N k i) \<and>
             (k < 2 ^ 32 \<longrightarrow> unat (idx (blks q ! i)) = largest_seq N k i) \<and>
             (largest_seq N k i = 0 \<or>
                (1 \<le> largest_seq N k i \<and> largest_seq N k i \<le> k \<and> largest_seq N k i mod N = i)) \<and>
             idx (blks (fst (writes CNT (ws @ [w]) (SPMCQueue_init CNT d0, e))) ! i) =
               (if Suc k mod N = i then of_nat (Suc k) else idx (blks q ! i)) \<and>
             (length (ws @ ws') < 2 ^ 32 \<longrightarrow>
                unat (idx (blks q ! i)) \<le>
                unat (idx (blks (fst (writes CNT (ws @ ws') (SPMCQueue_init CNT d0, e))) ! i))))"
proof -
  let ?N = "unat CNT"
  let ?k = "length ws"
  have pos: "0 < ?N" by (rule CNT_ok_pos [OF ok])
  note ls = last_write_largest_seq [OF pos i, symmetric]
  have ix: "idx (blks (fst (writes CNT xs (SPMCQueue_init CNT d0, e))) ! i) =
              of_nat (last_write ?N (length xs) i)" for xs
    using ring_after_writes [OF ok, of xs d0 e] i by blast
  have un: "unat (idx (blks (fst (writes CNT xs (SPMCQueue_init CNT d0, e))) ! i)) =
              last_write ?N (length xs) i" if "length xs < 2 ^ 32" for xs
  proof -
    have "last_write ?N (length xs) i < 2 ^ 32"
      using last_write_le [of ?N "length xs" i] that by simp
    then show ?thesis unfolding ix by (simp add: unat_of_nat)
  qed
  have c1: "idx (blks (fst (writes CNT ws (SPMCQueue_init CNT d0, e))) ! i) = of_nat (largest_seq ?N ?k i)"
    unfolding ls by (rule ix)
  have c2: "?k < 2 ^ 32 \<longrightarrow>
      unat (idx (blks (fst (writes CNT ws (SPMCQueue_init CNT d0, e))) ! i)) = largest_seq ?N ?k i"
    unfolding ls using un [of ws] by blast
  have c3: "largest_seq ?N ?k i = 0 \<or>
      (1 \<le> largest_seq ?N ?k i \<and> largest_seq ?N ?k i \<le> ?k \<and> largest_seq ?N ?k i mod ?N = i)"
    unfolding ls using last_write_le [of ?N ?k i] last_write_mod [of ?N ?k i] by auto
  have c4: "idx (blks (fst (writes CNT (ws @ [w]) (SPMCQueue_init CNT d0, e))) ! i) =
      (if Suc ?k mod ?N = i then of_nat (Suc ?k)
       else idx (blks (fst (writes CNT ws (SPMCQueue_init CNT d0, e))) ! i))"
    unfolding ix by simp
  have c5: "length (ws @ ws') < 2 ^ 32 \<longrightarrow>
      unat (idx (blks (fst (writes CNT ws (SPMCQueue_init CNT d0, e))) ! i)) \<le>
      unat (idx (blks (fst (writes CNT (ws @ ws') (SPMCQueue_init CNT d0, e))) ! i))"
  proof
    assume l: "length (ws @ ws') < 2 ^ 32"
    then have l0: "length ws < 2 ^ 32" by simp
    have "last_write ?N (length ws) i \<le> last_write ?N (length (ws @ ws')) i"
      by (rule last_write_mono) simp
    then show "unat (idx (blks (fst (writes CNT ws (SPMCQueue_init CNT d0, e))) ! i)) \<le>
      unat (idx (blks (fst (writes CNT (ws @ ws') (SPMCQueue_init CNT d0, e))) ! i))"
      unfolding un [OF l] un [OF l0] .
  qed
  show ?thesis
    unfolding Let_def by (intro conjI c1 c2 c3 c4 c5)
qed

theorem slot_seq_values_witness:
  "CNT_ok 4 \<and> 1 < unat (4::uint32_t) \<and>
   length [store_msg 10, store_msg (20::nat) :: (nat, unit) Writer] < 2 ^ 32 \<and>
   largest_seq 4 2 1 = 1 \<and>
   unat (idx (blks (fst (writes 4 [store_msg 10, store_msg 20] (SPMCQueue_init 4 (0::nat), ()))) ! 1)) = 1"
proof -
  have i: "1 < unat (4::uint32_t)" by simp
  have l: "length [store_msg 10, store_msg (20::nat) :: (nat, unit) Writer] < 2 ^ 32" by simp
  have v: "largest_seq 4 2 1 = 1" by code_simp
  have v': "largest_seq (unat (4::uint32_t))
      (length [store_msg 10, store_msg (20::nat) :: (nat, unit) Writer]) 1 = 1"
    by code_simp
  from slot_seq_values [OF CNT_ok_4 i, of "[store_msg 10, store_msg 20]" 0 "()"] l
  have "unat (idx (blks (fst (writes 4 [store_msg 10, store_msg 20] (SPMCQueue_init 4 (0::nat), ()))) ! 1)) =
      largest_seq (unat (4::uint32_t)) (length [store_msg 10, store_msg (20::nat) :: (nat, unit) Writer]) 1"
    unfolding Let_def by blast
  then have "unat (idx (blks (fst (writes 4 [store_msg 10, store_msg 20] (SPMCQueue_init 4 (0::nat), ()))) ! 1)) = 1"
    by (simp only: v')
  with CNT_ok_4 i l v show ?thesis by blast
qed

text \<open>
  C3 as stated fails. After the first write on a ring of capacity 4, slot 1 holds
  sequence number 1, which is none of 0, 2, 6, 10, ...; and the \<open>idx\<close> of slot 0 is
  \<open>2 ^ 32 - 4\<close> after \<open>2 ^ 32 - 4\<close> writes and 0 after \<open>2 ^ 32\<close> writes.
\<close>

theorem slot_seq_counterexample:
  "\<not> claimed_seq_value 4 1
       (unat (idx (blks (fst (writes 4 [store_msg 10] (SPMCQueue_init 4 (0::nat), ()))) ! 1))) \<and>
   unat (idx (blks (fst (writes 4 (replicate 4294967296 (store_msg 10))
                           (SPMCQueue_init 4 (0::nat), ()))) ! 0)) <
   unat (idx (blks (fst (writes 4 (replicate 4294967292 (store_msg 10))
                           (SPMCQueue_init 4 (0::nat), ()))) ! 0))"
proof
  have "unat (idx (blks (fst (writes 4 [store_msg 10] (SPMCQueue_init 4 (0::nat), ()))) ! 1)) = 1"
    by code_simp
  then show "\<not> claimed_seq_value 4 1
       (unat (idx (blks (fst (writes 4 [store_msg 10] (SPMCQueue_init 4 (0::nat), ()))) ! 1)))"
    by (simp add: claimed_seq_value_def)
next
  have z: "(0::nat) < unat (4::uint32_t)" by simp
  have ix: "idx (blks (fst (writes 4 (replicate n (store_msg 10)) (SPMCQueue_init 4 (0::nat), ()))) ! 0) =
      of_nat (last_write 4 n 0)" for n
    using ring_after_writes [OF CNT_ok_4, of "replicate n (store_msg (10::nat))" "0::nat" "()"] z
    by simp
  have a: "last_write 4 4294967296 0 = 4294967296" by (rule last_write_self) simp_all
  have b: "last_write 4 4294967292 0 = 4294967292" by (rule last_write_self) simp_all
  show "unat (idx (blks (fst (writes 4 (replicate 4294967296 (store_msg 10))
                           (SPMCQueue_init 4 (0::nat), ()))) ! 0)) <
   unat (idx (blks (fst (writes 4 (replicate 4294967292 (store_msg 10))
                           (SPMCQueue_init 4 (0::nat), ()))) ! 0))"
    unfolding ix a b by simp
qed

subsection \<open>A new reader sees only later writes\<close>

lemma blk_last_write:
  assumes ok: "CNT_ok CNT" and i: "i < unat CNT"
  shows "blks (fst (writes CNT ws (SPMCQueue_init CNT d0, e))) ! i =
         blks (fst (writes CNT (take (last_write (unat CNT) (length ws) i) ws)
                      (SPMCQueue_init CNT d0, e))) ! i"
proof (induction ws rule: rev_induct)
  case Nil
  then show ?case by simp
next
  case (snoc w ws)
  let ?s = "writes CNT ws (SPMCQueue_init CNT d0, e)"
  let ?k = "length ws"
  let ?j = "Suc ?k mod unat CNT"
  have wi: "write_idx (fst ?s) = of_nat ?k"
    using ring_after_writes [OF ok, of ws d0 e] by simp
  note b = step_blks [OF ok wi, of w]
  show ?case
  proof (cases "i = ?j")
    case True
    then show ?thesis by simp
  next
    case False
    have le: "last_write (unat CNT) ?k i \<le> ?k" by (rule last_write_le)
    have "blks (fst (writes CNT (ws @ [w]) (SPMCQueue_init CNT d0, e))) ! i = blks (fst ?s) ! i"
      unfolding writes_snoc b using False by simp
    with snoc False le show ?thesis by simp
  qed
qed

lemma last_write_behind:
  assumes "0 < N"
  shows "Suc k \<le> last_write N k (Suc k mod N) + N"
proof (cases "N \<le> Suc k")
  case True
  have "(Suc k - N) mod N = Suc k mod N" using True by (simp add: le_mod_geq)
  moreover have "Suc k - N \<le> k" using assms by simp
  ultimately have "Suc k - N \<le> last_write N k (Suc k mod N)" by (rule last_write_ge [rotated])
  then show ?thesis by simp
next
  case False
  then show ?thesis by simp
qed

lemma fresh_reader_not_ready:
  assumes ok: "CNT_ok CNT" and le: "last_write (unat CNT) K (Suc k mod unat CNT) \<le> k"
    and eq: "last_write (unat CNT) K (Suc k mod unat CNT) = last_write (unat CNT) k (Suc k mod unat CNT)"
  shows "sint ((of_nat (last_write (unat CNT) K (Suc k mod unat CNT)) :: uint32_t) - of_nat (Suc k)) < 0"
proof -
  let ?l = "last_write (unat CNT) K (Suc k mod unat CNT)"
  have "Suc k \<le> ?l + unat CNT" unfolding eq by (rule last_write_behind [OF CNT_ok_pos [OF ok]])
  moreover have "unat CNT \<le> 2 ^ 31" by (rule CNT_ok_le [OF ok])
  ultimately have "Suc k \<le> ?l + 2147483648" by simp
  then have "- (2 ^ 31) \<le> int ?l - int (Suc k)" by simp
  moreover have "int ?l - int (Suc k) < 0" using le by simp
  ultimately show ?thesis using sint_diff_of_nat [of ?l "Suc k"] by simp
qed

lemma take_app_le: "n \<le> length xs \<Longrightarrow> take n (xs @ ys) = take n xs"
  by simp

lemma first_read_fresh:
  assumes ok: "CNT_ok CNT"
  shows "first_read CNT evs (writes CNT (ws @ ws2) (SPMCQueue_init CNT d0, e))
           (getReader (fst (writes CNT ws (SPMCQueue_init CNT d0, e)))) = Some (slot, q', r') \<Longrightarrow>
         \<exists>s. length ws < s \<and> s \<le> length ws + length ws2 + length (writers_of evs) \<and>
             idx (blks q' ! slot) = of_nat s \<and>
             blks q' ! slot =
               blks (fst (writes CNT (take s (ws @ ws2 @ writers_of evs))
                            (SPMCQueue_init CNT d0, e))) ! slot"
proof (induction evs arbitrary: ws2)
  case Nil
  then show ?case by simp
next
  case (Cons ev evs)
  let ?init = "(SPMCQueue_init CNT d0, e)"
  let ?r = "getReader (fst (writes CNT ws ?init))"
  let ?k = "length ws"
  let ?N = "unat CNT"
  show ?case
  proof (cases ev)
    case (Write_ev w)
    with Cons.prems have
      "first_read CNT evs (writes CNT (ws @ (ws2 @ [w])) ?init) ?r = Some (slot, q', r')"
      by (simp add: writes_append)
    from Cons.IH [OF this] Write_ev show ?thesis by simp
  next
    case Read_ev
    let ?s = "writes CNT (ws @ ws2) ?init"
    let ?K = "length (ws @ ws2)"
    have nx: "next_idx ?r = of_nat (Suc ?k)"
      using ring_after_writes [OF ok, of ws d0 e] by (simp add: getReader_def)
    have sl: "unat (next_idx ?r mod CNT) = Suc ?k mod ?N"
      unfolding nx by (rule slot_of_nat [OF ok])
    let ?j = "Suc ?k mod ?N"
    have jlt: "?j < ?N" using CNT_ok_pos [OF ok] by simp
    let ?l = "last_write ?N ?K ?j"
    have ob: "idx (blks (fst ?s) ! ?j) = of_nat ?l"
      using ring_after_writes [OF ok, of "ws @ ws2" d0 e] jlt by blast
    show ?thesis
    proof (cases "sint (idx (blks (fst ?s) ! ?j) - next_idx ?r) < 0")
      case True
      then have "read CNT (fst ?s, ?r) = (None, fst ?s, ?r)"
        by (simp add: read_def Let_def sl)
      with Cons.prems Read_ev have
        "first_read CNT evs ?s ?r = Some (slot, q', r')" by simp
      from Cons.IH [OF this] Read_ev show ?thesis by simp
    next
      case False
      then have rd: "read CNT (fst ?s, ?r) = (Some ?j, fst ?s, ?r\<lparr>next_idx := idx (blks (fst ?s) ! ?j) + 1\<rparr>)"
        by (simp add: read_def Let_def sl)
      with Cons.prems Read_ev have res: "slot = ?j" "q' = fst ?s" by simp_all
      have gt: "?k < ?l"
      proof (rule ccontr)
        assume "\<not> ?k < ?l"
        then have le: "?l \<le> ?k" by simp
        have "?l = last_write ?N ?k ?j" using le by (intro last_write_old) simp_all
        from fresh_reader_not_ready [OF ok le this] False show False
          unfolding ob nx by simp
      qed
      have lK: "?l \<le> ?K" by (rule last_write_le)
      have tk: "take ?l (ws @ ws2 @ writers_of (ev # evs)) = take ?l (ws @ ws2)"
        using take_app_le [OF lK, of "writers_of (ev # evs)"] by (simp only: append_assoc)
      have "blks (fst ?s) ! ?j = blks (fst (writes CNT (take ?l (ws @ ws2)) ?init)) ! ?j"
        by (rule blk_last_write [OF ok jlt])
      then have f4: "blks q' ! slot =
          blks (fst (writes CNT (take ?l (ws @ ws2 @ writers_of (ev # evs))) ?init)) ! slot"
        by (simp only: tk res)
      have f3: "idx (blks q' ! slot) = of_nat ?l" using res ob by simp
      have f2: "?l \<le> ?k + length ws2 + length (writers_of (ev # evs))" using lK by simp
      show ?thesis
        by (rule exI [of _ ?l]) (intro conjI gt f2 f3 f4)
    qed
  qed
qed

text \<open>
  C5. \<open>getReader\<close> returns a handle whose \<open>next_idx\<close> is the current \<open>write_idx\<close>
  plus one. Take a ring reached from a fresh one by the writes \<open>ws\<close>, a reader created
  there, and any further run \<open>evs\<close> of writes and polls of that reader. If a poll
  succeeds, the block returned by the first such poll was written by write number \<open>s\<close>
  for some \<open>s\<close> of at least \<open>length ws + 1\<close>: it holds \<open>s\<close> (modulo \<open>2 ^ 32\<close>) as
  its \<open>idx\<close> and it is the block as that write left it. No record written before the
  reader was created is returned.
\<close>

theorem getReader_fresh:
  assumes "CNT_ok CNT"
  shows "next_idx (getReader q) = write_idx q + 1 \<and>
    (\<forall>slot q' r'.
       first_read CNT evs (writes CNT ws (SPMCQueue_init CNT d0, e))
         (getReader (fst (writes CNT ws (SPMCQueue_init CNT d0, e)))) = Some (slot, q', r') \<longrightarrow>
       (\<exists>s. length ws + 1 \<le> s \<and> s \<le> length ws + length (writers_of evs) \<and>
            idx (blks q' ! slot) = of_nat s \<and>
            blks q' ! slot =
              blks (fst (writes CNT (take s (ws @ writers_of evs))
                           (SPMCQueue_init CNT d0, e))) ! slot))"
proof (intro conjI allI impI)
  show "next_idx (getReader q) = write_idx q + 1" by (simp add: getReader_def)
next
  fix slot q' r'
  assume "first_read CNT evs (writes CNT ws (SPMCQueue_init CNT d0, e))
         (getReader (fst (writes CNT ws (SPMCQueue_init CNT d0, e)))) = Some (slot, q', r')"
  then have "first_read CNT evs (writes CNT (ws @ []) (SPMCQueue_init CNT d0, e))
         (getReader (fst (writes CNT ws (SPMCQueue_init CNT d0, e)))) = Some (slot, q', r')"
    by (simp only: append_Nil2)
  from first_read_fresh [OF assms this]
  show "\<exists>s. length ws + 1 \<le> s \<and> s \<le> length ws + length (writers_of evs) \<and>
            idx (blks q' ! slot) = of_nat s \<and>
            blks q' ! slot =
              blks (fst (writes CNT (take s (ws @ writers_of evs))
                           (SPMCQueue_init CNT d0, e))) ! slot"
    by (simp only: append_Nil list.size add_0_right Suc_le_eq Suc_eq_plus1 [symmetric])
qed

theorem getReader_fresh_witness:
  "CNT_ok 4 \<and>
   first_read 4 [Read_ev, Write_ev (store_msg 30), Read_ev]
     (writes 4 [store_msg 10, store_msg 20] (SPMCQueue_init 4 (0::nat), ()))
     (getReader (fst (writes 4 [store_msg 10, store_msg 20] (SPMCQueue_init 4 (0::nat), ())))) =
   Some (3, \<lparr>blks = [\<lparr>idx = 0, data = 0\<rparr>, \<lparr>idx = 1, data = 10\<rparr>,
                      \<lparr>idx = 2, data = 20\<rparr>, \<lparr>idx = 3, data = 30\<rparr>], write_idx = 3\<rparr>,
         \<lparr>next_idx = 4\<rparr>) \<and>
   (\<exists>s\<ge>3. idx (blks \<lparr>blks = [\<lparr>idx = 0, data = 0::nat\<rparr>, \<lparr>idx = 1, data = 10\<rparr>,
                      \<lparr>idx = 2, data = 20\<rparr>, \<lparr>idx = 3, data = 30\<rparr>], write_idx = 3\<rparr> ! 3) = of_nat s)"
proof -
  have fr: "first_read 4 [Read_ev, Write_ev (store_msg 30), Read_ev]
     (writes 4 [store_msg 10, store_msg 20] (SPMCQueue_init 4 (0::nat), ()))
     (getReader (fst (writes 4 [store_msg 10, store_msg 20] (SPMCQueue_init 4 (0::nat), ())))) =
   Some (3, \<lparr>blks = [\<lparr>idx = 0, data = 0\<rparr>, \<lparr>idx = 1, data = 10\<rparr>,
                      \<lparr>idx = 2, data = 20\<rparr>, \<lparr>idx = 3, data = 30\<rparr>], write_idx = 3\<rparr>,
         \<lparr>next_idx = 4\<rparr>)"
    by code_simp
  from getReader_fresh [OF CNT_ok_4, of undefined "[Read_ev, Write_ev (store_msg 30), Read_ev]"
      "[store_msg 10, store_msg 20]" "0::nat" "()"] fr
  have "\<exists>s. length [store_msg 10, store_msg (20::nat) :: (nat, unit) Writer] + 1 \<le> s \<and>
      idx (blks \<lparr>blks = [\<lparr>idx = 0, data = 0::nat\<rparr>, \<lparr>idx = 1, data = 10\<rparr>,
                      \<lparr>idx = 2, data = 20\<rparr>, \<lparr>idx = 3, data = 30\<rparr>], write_idx = 3\<rparr> ! 3) = of_nat s"
    by blast
  then have "\<exists>s\<ge>3. idx (blks \<lparr>blks = [\<lparr>idx = 0, data = 0::nat\<rparr>, \<lparr>idx = 1, data = 10\<rparr>,
                      \<lparr>idx = 2, data = 20\<rparr>, \<lparr>idx = 3, data = 30\<rparr>], write_idx = 3\<rparr> ! 3) = of_nat s"
    by (simp add: numeral_3_eq_3)
  with CNT_ok_4 fr show ?thesis by blast
qed

subsection \<open>The order of the steps of a write\<close>







section \<open>Properties of the hub\<close>

subsection \<open>The operations case by case\<close>

lemma subscribe_cases:
  "subscribe type cb h =
     (if next_subscriber_id h = 2 ^ 31 - 1 then Inl Undefined
      else Inr (next_subscriber_id h,
             h\<lparr>next_subscriber_id := next_subscriber_id h + 1,
               subscribers := AList.update (next_subscriber_id h)
                 \<lparr>id' = next_subscriber_id h, data_type = type, callback = cb,
                  thread = Some At_lookup, running = True,
                  reader_holder = getReader (queue h)\<rparr> (subscribers h)\<rparr>))"
  by (simp add: subscribe_def subscribe_traced_def Subscriber_new_def Let_def)




subsection \<open>The order of the steps of subscribe\<close>

text \<open>
  C6, as the code has it. \<open>subscribe\<close> holds \<^verbatim>\<open>mutex_\<close> throughout and, in this order,
  constructs the subscriber record, obtains the reader handle, sets \<open>running\<close>,
  launches the consumer thread and only then inserts the record into the table. The
  thread's lookup needs \<^verbatim>\<open>mutex_\<close>, so it runs after \<open>subscribe\<close> has returned, and it
  finds the record.
\<close>

theorem subscribe_order:
  assumes "next_subscriber_id h \<noteq> 2 ^ 31 - 1"
  shows "(let i = next_subscriber_id h;
              entry = \<lparr>id' = i, data_type = type, callback = cb, thread = Some At_lookup,
                       running = True, reader_holder = getReader (queue h)\<rparr>;
              h' = h\<lparr>next_subscriber_id := i + 1,
                     subscribers := AList.update i entry (subscribers h)\<rparr>
          in subscribe_traced type cb h =
               Inr ((i, h'),
                    [Lock_mutex, Make_subscriber i, Get_reader i, Set_running i,
                     Launch_thread i, Insert_table i, Unlock_mutex]) \<and>
             happens_before (Launch_thread i) (Insert_table i) (subscribe_trace type cb h) \<and>
             \<not> happens_before (Insert_table i) (Launch_thread i) (subscribe_trace type cb h) \<and>
             map_of (subscribers h') i = Some entry \<and>
             map_of (subscribers (consumer_thread_lookup i h')) i =
               Some (entry\<lparr>thread := Some In_loop\<rparr>))"
  using assms
  by (simp add: subscribe_traced_def subscribe_trace_def Subscriber_new_def Let_def
      happens_before_def consumer_thread_lookup_def update_conv')

theorem subscribe_order_witness:
  "next_subscriber_id (MarketDataHub_init :: unit MarketDataHub) \<noteq> 2 ^ 31 - 1 \<and>
   subscribe_trace TRADE quiet_callback MarketDataHub_init =
     [Lock_mutex, Make_subscriber 0, Get_reader 0, Set_running 0,
      Launch_thread 0, Insert_table 0, Unlock_mutex] \<and>
   happens_before (Launch_thread 0) (Insert_table 0)
     (subscribe_trace TRADE quiet_callback MarketDataHub_init)"
proof -
  have n: "next_subscriber_id (MarketDataHub_init :: unit MarketDataHub) \<noteq> 2 ^ 31 - 1"
    by (simp add: MarketDataHub_init_def)
  have z: "next_subscriber_id (MarketDataHub_init :: unit MarketDataHub) = 0"
    by (simp add: MarketDataHub_init_def)
  from subscribe_order [OF n, of TRADE quiet_callback]
  have "happens_before (Launch_thread 0) (Insert_table 0)
     (subscribe_trace TRADE quiet_callback MarketDataHub_init)"
    unfolding Let_def z by blast
  moreover have "subscribe_trace TRADE quiet_callback MarketDataHub_init =
     [Lock_mutex, Make_subscriber 0, Get_reader 0, Set_running 0,
      Launch_thread 0, Insert_table 0, Unlock_mutex]"
    by (simp add: subscribe_trace_def subscribe_traced_def Let_def z)
  ultimately show ?thesis using n by blast
qed

text \<open>
  C6 as stated fails: on a new hub the insertion into the table does not come before the
  launch of the thread.
\<close>

theorem subscribe_order_counterexample:
  "\<not> happens_before (Insert_table 0) (Launch_thread 0)
       (subscribe_trace TRADE quiet_callback MarketDataHub_init)"
  by (simp add: subscribe_trace_def subscribe_traced_def Let_def MarketDataHub_init_def
      happens_before_def)

subsection \<open>Unsubscribing\<close>

text \<open>
  \<open>unsubscribe\<close> of an id that is not in the table returns the hub as it is; a second
  \<open>unsubscribe\<close> of the same id is such a call. Once the consumer thread has done its
  lookup, \<open>subscribe\<close> followed by \<open>unsubscribe\<close> of the id returned gives the
  \<open>subscriber_count\<close> from before.
\<close>

lemma subscriber_count_card: "subscriber_count h = card (fst ` set (subscribers h))"
  by (simp add: subscriber_count_def length_remdups_card_conv)

lemma unsubscribe_unknown:
  "map_of (subscribers h) i = None \<Longrightarrow> unsubscribe i h = Inr h"
  by (simp add: unsubscribe_def)

lemma unsubscribe_twice:
  assumes "unsubscribe i h = Inr h'"
  shows "unsubscribe i h' = Inr h'"
proof -
  have "map_of (subscribers h') i = None"
  proof (cases "map_of (subscribers h) i")
    case None
    with assms show ?thesis by (simp add: unsubscribe_def)
  next
    case (Some subscriber)
    with assms have "h' = h\<lparr>subscribers := AList.delete i (subscribers h)\<rparr>"
      by (auto simp: unsubscribe_def split: option.splits)
    then show ?thesis by (simp add: delete_conv')
  qed
  then show ?thesis by (rule unsubscribe_unknown)
qed

lemma keys_delete: "fst ` set (AList.delete k al) = fst ` set al - {k}"
proof -
  have "set (map fst (AList.delete k al)) = set (removeAll k (map fst al))"
    by (simp only: delete_keys)
  then show ?thesis by simp
qed

lemma subscribe_lookup_unsubscribe:
  assumes n: "next_subscriber_id h \<noteq> 2 ^ 31 - 1"
    and fresh: "map_of (subscribers h) (next_subscriber_id h) = None"
  shows "\<exists>i h1 h2. subscribe type cb h = Inr (i, h1) \<and>
           subscriber_count h1 = subscriber_count h + 1 \<and>
           unsubscribe i (consumer_thread_lookup i h1) = Inr h2 \<and>
           subscriber_count h2 = subscriber_count h"
proof -
  let ?i = "next_subscriber_id h"
  let ?entry = "\<lparr>id' = ?i, data_type = type, callback = cb, thread = Some At_lookup,
                 running = True, reader_holder = getReader (queue h)\<rparr>"
  let ?h1 = "h\<lparr>next_subscriber_id := ?i + 1,
               subscribers := AList.update ?i ?entry (subscribers h)\<rparr>"
  let ?h1' = "consumer_thread_lookup ?i ?h1"
  let ?h2 = "?h1'\<lparr>subscribers := AList.delete ?i (subscribers ?h1')\<rparr>"
  have s: "subscribe type cb h = Inr (?i, ?h1)" using n by (simp add: subscribe_cases)
  have notin: "?i \<notin> fst ` set (subscribers h)"
    using fresh by (simp add: map_of_eq_None_iff)
  have fin: "finite (fst ` set (subscribers h))" by simp
  have c1: "subscriber_count ?h1 = subscriber_count h + 1"
    using notin fin by (simp add: subscriber_count_card dom_update)
  have m: "map_of (subscribers ?h1) ?i = Some ?entry" by (simp add: update_conv')
  have l: "subscribers ?h1' =
      AList.update ?i (?entry\<lparr>thread := Some In_loop\<rparr>) (subscribers ?h1)"
    using m by (simp add: consumer_thread_lookup_def)
  have m': "map_of (subscribers ?h1') ?i = Some (?entry\<lparr>thread := Some In_loop\<rparr>)"
    unfolding l by (simp add: update_conv')
  have u: "unsubscribe ?i ?h1' = Inr ?h2"
    using m' by (simp add: unsubscribe_def stop_subscriber_def)
  have "fst ` set (subscribers ?h2) = fst ` set (subscribers h) - {?i}"
    unfolding l by (auto simp: keys_delete dom_update)
  then have c2: "subscriber_count ?h2 = subscriber_count h"
    using notin by (simp add: subscriber_count_card)
  from s c1 u c2 show ?thesis by blast
qed

text \<open>
  C9 at the input where the code fails it: \<open>unsubscribe\<close> called right after
  \<open>subscribe\<close>, before the new consumer thread has taken \<^verbatim>\<open>mutex_\<close> for its lookup.
  \<open>unsubscribe\<close> holds \<^verbatim>\<open>mutex_\<close> and waits in \<^verbatim>\<open>join\<close> for the thread, the thread waits
  for \<^verbatim>\<open>mutex_\<close>: the call does not return.
\<close>

theorem unsubscribe_after_subscribe_blocks:
  "fst (run [Subscribe TRADE quiet_callback, Unsubscribe 0] (system_init ())) = Some Deadlock"
  by code_simp

subsection \<open>The filter of a subscriber\<close>











subsection \<open>Errors raised in callbacks\<close>










end
